theory Spec2Isabelle
  imports Main
begin

unbundle bit_operations_syntax

section \<open>SHA-256 (hashlib.sha256), FIPS 180-4\<close>

text \<open>
  \<^verbatim>\<open>sha256_hex\<close> of \<^verbatim>\<open>miner_demo.py\<close> calls \<^verbatim>\<open>hashlib.sha256\<close>. The digest is modelled
  as the standard prescribes it, on 32-bit words written as naturals with the wrap-around
  \<open>mod 2 ^ 32\<close> spelled out.
\<close>

definition K256 :: "nat list" where
  "K256 = [
   0x428A2F98, 0x71374491, 0xB5C0FBCF, 0xE9B5DBA5, 0x3956C25B, 0x59F111F1, 0x923F82A4, 0xAB1C5ED5,
   0xD807AA98, 0x12835B01, 0x243185BE, 0x550C7DC3, 0x72BE5D74, 0x80DEB1FE, 0x9BDC06A7, 0xC19BF174,
   0xE49B69C1, 0xEFBE4786, 0x0FC19DC6, 0x240CA1CC, 0x2DE92C6F, 0x4A7484AA, 0x5CB0A9DC, 0x76F988DA,
   0x983E5152, 0xA831C66D, 0xB00327C8, 0xBF597FC7, 0xC6E00BF3, 0xD5A79147, 0x06CA6351, 0x14292967,
   0x27B70A85, 0x2E1B2138, 0x4D2C6DFC, 0x53380D13, 0x650A7354, 0x766A0ABB, 0x81C2C92E, 0x92722C85,
   0xA2BFE8A1, 0xA81A664B, 0xC24B8B70, 0xC76C51A3, 0xD192E819, 0xD6990624, 0xF40E3585, 0x106AA070,
   0x19A4C116, 0x1E376C08, 0x2748774C, 0x34B0BCB5, 0x391C0CB3, 0x4ED8AA4A, 0x5B9CCA4F, 0x682E6FF3,
   0x748F82EE, 0x78A5636F, 0x84C87814, 0x8CC70208, 0x90BEFFFA, 0xA4506CEB, 0xBEF9A3F7, 0xC67178F2]"

definition H256 :: "nat list" where
  "H256 = [0x6A09E667, 0xBB67AE85, 0x3C6EF372, 0xA54FF53A,
           0x510E527F, 0x9B05688C, 0x1F83D9AB, 0x5BE0CD19]"

definition add32 :: "nat \<Rightarrow> nat \<Rightarrow> nat" where
  "add32 x y = (x + y) mod 4294967296"

definition rotr :: "nat \<Rightarrow> nat \<Rightarrow> nat" where
  "rotr n x = x div 2 ^ n + (x mod 2 ^ n) * 2 ^ (32 - n)"

definition shr :: "nat \<Rightarrow> nat \<Rightarrow> nat" where
  "shr n x = x div 2 ^ n"

definition Ch :: "nat \<Rightarrow> nat \<Rightarrow> nat \<Rightarrow> nat" where
  "Ch x y z = (x AND y) XOR ((4294967295 - x) AND z)"

definition Maj :: "nat \<Rightarrow> nat \<Rightarrow> nat \<Rightarrow> nat" where
  "Maj x y z = (x AND y) XOR (x AND z) XOR (y AND z)"

definition Sigma0 :: "nat \<Rightarrow> nat" where
  "Sigma0 x = rotr 2 x XOR rotr 13 x XOR rotr 22 x"

definition Sigma1 :: "nat \<Rightarrow> nat" where
  "Sigma1 x = rotr 6 x XOR rotr 11 x XOR rotr 25 x"

definition sigma0 :: "nat \<Rightarrow> nat" where
  "sigma0 x = rotr 7 x XOR rotr 18 x XOR shr 3 x"

definition sigma1 :: "nat \<Rightarrow> nat" where
  "sigma1 x = rotr 17 x XOR rotr 19 x XOR shr 10 x"

text \<open>The message schedule, newest word first: \<open>ws ! 1\<close> is \<open>W\<^sub>t\<^sub>-\<^sub>2\<close>, \<open>ws ! 15\<close> is \<open>W\<^sub>t\<^sub>-\<^sub>1\<^sub>6\<close>.\<close>

fun schedule :: "nat \<Rightarrow> nat list \<Rightarrow> nat list" where
  "schedule 0 ws = ws"
| "schedule (Suc n) ws =
     schedule n (add32 (add32 (add32 (sigma1 (ws ! 1)) (ws ! 6)) (sigma0 (ws ! 14))) (ws ! 15) # ws)"

fun round256 :: "nat list \<Rightarrow> (nat \<times> nat) \<Rightarrow> nat list" where
  "round256 [a, b, c, d, e, f, g, h] (k, w) =
     (let t1 = add32 (add32 (add32 (add32 h (Sigma1 e)) (Ch e f g)) k) w;
          t2 = add32 (Sigma0 a) (Maj a b c)
      in [add32 t1 t2, a, b, c, add32 d t1, e, f, g])"
| "round256 s _ = s"

definition compress :: "nat list \<Rightarrow> nat list \<Rightarrow> nat list" where
  "compress hs blk =
     map2 add32 hs (foldl round256 hs (zip K256 (rev (schedule 48 (rev blk)))))"

fun be32 :: "nat list \<Rightarrow> nat list" where
  "be32 (a # b # c # d # rest) = (((a * 256 + b) * 256 + c) * 256 + d) # be32 rest"
| "be32 _ = []"

fun blocks16 :: "nat list \<Rightarrow> nat list list" where
  "blocks16 [] = []"
| "blocks16 (w # ws) = take 16 (w # ws) # blocks16 (drop 16 (w # ws))"

definition pad :: "nat list \<Rightarrow> nat list" where
  "pad bs = (let l = length bs in
      bs @ [128] @ replicate ((119 - l mod 64) mod 64) 0
         @ map (\<lambda>i. (8 * l) div 256 ^ (7 - i) mod 256) [0..<8])"

definition sha256 :: "nat list \<Rightarrow> nat list" where
  "sha256 bs = foldl compress H256 (blocks16 (be32 (pad bs)))"

definition hex32 :: "nat \<Rightarrow> string" where
  "hex32 w = map (\<lambda>i. ''0123456789abcdef'' ! (w div 16 ^ (7 - i) mod 16)) [0..<8]"

definition hexdigest :: "nat list \<Rightarrow> string" where
  "hexdigest ws = concat (map hex32 ws)"

section \<open>Python strings and values\<close>

text \<open>
  A Python \<^verbatim>\<open>str\<close> is a \<open>string\<close> whose characters are the code points below 256;
  \<^verbatim>\<open>encode("utf-8")\<close> writes a code point from 128 on as two bytes.
\<close>

definition utf8 :: "string \<Rightarrow> nat list" where
  "utf8 s = concat (map (\<lambda>c. let n = of_char c in
      if n < 128 then [n] else [192 + n div 64, 128 + n mod 64]) s)"

definition sha256_hex :: "string \<Rightarrow> string" where
  "sha256_hex s = hexdigest (sha256 (utf8 s))"

text \<open>\<^verbatim>\<open>str(n)\<close> and \<^verbatim>\<open>f"{n}"\<close> for a Python int.\<close>

fun digits :: "nat \<Rightarrow> string" where
  "digits n = (if n < 10 then [''0123456789'' ! n]
               else digits (n div 10) @ [''0123456789'' ! (n mod 10)])"

declare digits.simps [simp del]

definition str_int :: "int \<Rightarrow> string" where
  "str_int i = (if i < 0 then CHR ''-'' # digits (nat (- i)) else digits (nat i))"

text \<open>
  A Python float is identified by its \<^verbatim>\<open>repr\<close>, the shortest decimal that reads back as
  the same float: formatting is the only thing the program does with one.
\<close>

type_synonym pyfloat = string

text \<open>
  The JSON-serialisable values. A \<^verbatim>\<open>dict\<close> is the list of its items in insertion order,
  with string keys, each key once.
\<close>

datatype json =
    JNull
  | JBool bool
  | JInt int
  | JFloat pyfloat
  | JStr string
  | JArr "json list"
  | JObj "(string \<times> json) list"

text \<open>\<^verbatim>\<open>json.dumps\<close> escapes a string as \<^verbatim>\<open>py_encode_basestring_ascii\<close> does.\<close>

definition hex4 :: "nat \<Rightarrow> string" where
  "hex4 n = map (\<lambda>i. ''0123456789abcdef'' ! (n div 16 ^ (3 - i) mod 16)) [0..<4]"

definition escape_char :: "char \<Rightarrow> string" where
  "escape_char c =
     (if c = CHR 0x22 then [CHR 0x5C, CHR 0x22]
      else if c = CHR 0x5C then [CHR 0x5C, CHR 0x5C]
      else if c = CHR 0x0A then [CHR 0x5C, CHR ''n'']
      else if c = CHR 0x0D then [CHR 0x5C, CHR ''r'']
      else if c = CHR 0x09 then [CHR 0x5C, CHR ''t'']
      else if c = CHR 0x08 then [CHR 0x5C, CHR ''b'']
      else if c = CHR 0x0C then [CHR 0x5C, CHR ''f'']
      else if 32 \<le> (of_char c :: nat) \<and> (of_char c :: nat) \<le> 126 then [c]
      else [CHR 0x5C, CHR ''u''] @ hex4 (of_char c))"

definition encode_str :: "string \<Rightarrow> string" where
  "encode_str s = [CHR 0x22] @ concat (map escape_char s) @ [CHR 0x22]"

definition float_str :: "pyfloat \<Rightarrow> string" where
  "float_str r = (if r = ''nan'' then ''NaN'' else if r = ''inf'' then ''Infinity''
                  else if r = ''-inf'' then ''-Infinity'' else r)"

fun join :: "string \<Rightarrow> string list \<Rightarrow> string" where
  "join sep [] = []"
| "join sep [x] = x"
| "join sep (x # y # ys) = x @ sep @ join sep (y # ys)"

text \<open>\<^verbatim>\<open>sort_keys=True\<close>: the items in the order of their keys, code point by code point.\<close>

fun str_le :: "string \<Rightarrow> string \<Rightarrow> bool" where
  "str_le [] t = True"
| "str_le (x # xs) [] = False"
| "str_le (x # xs) (y # ys) =
     ((of_char x :: nat) < of_char y \<or> (x = y \<and> str_le xs ys))"

fun insert_item :: "string \<times> 'a \<Rightarrow> (string \<times> 'a) list \<Rightarrow> (string \<times> 'a) list" where
  "insert_item kv [] = [kv]"
| "insert_item kv (x # xs) =
     (if str_le (fst x) (fst kv) then x # insert_item kv xs else kv # x # xs)"

definition sort_items :: "(string \<times> 'a) list \<Rightarrow> (string \<times> 'a) list" where
  "sort_items kvs = foldl (\<lambda>acc kv. insert_item kv acc) [] kvs"

lemma set_insert_item: "set (insert_item kv xs) = insert kv (set xs)"
  by (induction xs) auto

lemma set_foldl_insert_item:
  "set (foldl (\<lambda>acc kv. insert_item kv acc) acc kvs) = set acc \<union> set kvs"
  by (induction kvs arbitrary: acc) (auto simp: set_insert_item)

lemma set_sort_items: "set (sort_items kvs) = set kvs"
  by (simp add: sort_items_def set_foldl_insert_item)

lemma size_item_less: "(k, v) \<in> set kvs \<Longrightarrow> size v < Suc (size_list (size_prod (\<lambda>_. 0) size) kvs)"
  by (induction kvs) auto

lemma size_elem_less: "x \<in> set xs \<Longrightarrow> f x < Suc (size_list f xs)"
  by (induction xs) auto

text \<open>\<^verbatim>\<open>json.dumps(data, sort_keys=True, separators=(",", ":"))\<close>\<close>

function dumps :: "json \<Rightarrow> string" where
  "dumps JNull = ''null''"
| "dumps (JBool b) = (if b then ''true'' else ''false'')"
| "dumps (JInt i) = str_int i"
| "dumps (JFloat r) = float_str r"
| "dumps (JStr s) = encode_str s"
| "dumps (JArr xs) = ''['' @ join '','' (map dumps xs) @ '']''"
| "dumps (JObj kvs) =
     ''{'' @ join '','' (map (\<lambda>kv. encode_str (fst kv) @ '':'' @ dumps (snd kv)) (sort_items kvs)) @ ''}''"
  by pat_completeness auto

termination
proof (relation "measure size", goal_cases)
  case 1
  show ?case by simp
next
  case (2 xs x)
  then show ?case by (simp add: size_elem_less)
next
  case (3 kvs kv)
  then have "(fst kv, snd kv) \<in> set kvs" by (simp add: set_sort_items)
  then show ?case using size_item_less by fastforce
qed

section \<open>The store of payload objects\<close>

text \<open>
  A block holds a reference to its payload, not a copy: \<^verbatim>\<open>self.data = data\<close>. The
  payload objects live in a store; \<open>next_ref\<close> is the first address not yet in use.
\<close>

type_synonym ref = nat

record heap =
  cells :: "ref \<Rightarrow> json"
  next_ref :: ref

definition alloc :: "heap \<Rightarrow> json \<Rightarrow> ref \<times> heap" where
  "alloc h v = (next_ref h, h\<lparr>cells := (cells h)(next_ref h := v), next_ref := Suc (next_ref h)\<rparr>)"

section \<open>Block\<close>

text \<open>
  A method that mutates its receiver takes the block and returns the block it leaves.
  The result of a call that may raise, or may never return, is an option of a sum:
  \<open>None\<close> when it never returns, \<open>Some (Inl e)\<close> when it raises \<open>e\<close>,
  \<open>Some (Inr x)\<close> when it returns \<open>x\<close>.
\<close>

datatype error = AssertionError | IndexError | TypeError

record block =
  index :: int
  timestamp :: pyfloat
  data :: ref
  previous_hash :: string
  nonce :: int
  hash :: string

definition header_string :: "heap \<Rightarrow> block \<Rightarrow> string" where
  "header_string h b =
     (let data_json = dumps (cells h (data b))
      in str_int (index b) @ ''|'' @ timestamp b @ ''|'' @ previous_hash b @ ''|''
         @ data_json @ ''|'' @ str_int (nonce b))"

definition compute_hash :: "heap \<Rightarrow> block \<Rightarrow> string" where
  "compute_hash h b = sha256_hex (header_string h b)"

text \<open>\<^verbatim>\<open>Block.__init__\<close>; \<open>now\<close> is what \<^verbatim>\<open>time.time()\<close> returns.\<close>

definition Block_init :: "heap \<Rightarrow> int \<Rightarrow> pyfloat \<Rightarrow> ref \<Rightarrow> string \<Rightarrow> block" where
  "Block_init h idx now d prev =
     (let self = \<lparr>index = idx, timestamp = now, data = d, previous_hash = prev,
                  nonce = 0, hash = []\<rparr>
      in self\<lparr>hash := compute_hash h self\<rparr>)"

definition startswith :: "string \<Rightarrow> string \<Rightarrow> bool" where
  "startswith s p = (take (length p) s = p)"

text \<open>
  The \<^verbatim>\<open>while True\<close> loop of \<^verbatim>\<open>mine\<close>. It has no iteration cap: \<open>None\<close> is the search
  that never ends.
\<close>

partial_function (option) mine_loop :: "heap \<Rightarrow> string \<Rightarrow> block \<Rightarrow> block option" where
  "mine_loop h target_prefix self =
     (let self = self\<lparr>hash := compute_hash h self\<rparr>
      in if startswith (hash self) target_prefix then Some self
         else mine_loop h target_prefix (self\<lparr>nonce := nonce self + 1\<rparr>))"

definition mine :: "heap \<Rightarrow> int \<Rightarrow> block \<Rightarrow> (error + block) option" where
  "mine h difficulty self =
     (if \<not> difficulty \<ge> 0 then Some (Inl AssertionError)
      else map_option Inr (mine_loop h (replicate (nat difficulty) CHR ''0'') self))"

text \<open>
  The same loop, one statement at a time: \<open>At_hash\<close> is before line 41
  (\<^verbatim>\<open>self.hash = self.compute_hash()\<close>), \<open>At_test\<close> before the \<^verbatim>\<open>if\<close> of line 42,
  \<open>At_incr\<close> before line 44 (\<^verbatim>\<open>self.nonce += 1\<close>), \<open>Returned\<close> after the \<^verbatim>\<open>return\<close>.
\<close>

datatype pc = At_hash | At_test | At_incr | Returned

fun mine_step :: "heap \<Rightarrow> string \<Rightarrow> pc \<times> block \<Rightarrow> pc \<times> block" where
  "mine_step h target_prefix (At_hash, self) = (At_test, self\<lparr>hash := compute_hash h self\<rparr>)"
| "mine_step h target_prefix (At_test, self) =
     (if startswith (hash self) target_prefix then (Returned, self) else (At_incr, self))"
| "mine_step h target_prefix (At_incr, self) = (At_hash, self\<lparr>nonce := nonce self + 1\<rparr>)"
| "mine_step h target_prefix (Returned, self) = (Returned, self)"

section \<open>Blockchain\<close>

text \<open>
  The attribute \<^verbatim>\<open>chain\<close> is the field \<open>chain_list\<close>: \<open>chain\<close> is a constant of HOL.
  \<^verbatim>\<open>add_block\<close> also prints a line with the time the mining took; that line is left
  out.
\<close>

record blockchain =
  difficulty :: int
  chain_list :: "block list"

definition genesis_payload :: json where
  "genesis_payload = JObj [(''msg'', JStr ''Genesis Block'')]"

definition create_genesis :: "heap \<Rightarrow> int \<Rightarrow> pyfloat \<Rightarrow> (error + heap \<times> block) option" where
  "create_genesis h d now =
     (let (r, h1) = alloc h genesis_payload;
          genesis = Block_init h1 0 now r (replicate 64 CHR ''0'')
      in case mine h1 d genesis of
           None \<Rightarrow> None
         | Some (Inl e) \<Rightarrow> Some (Inl e)
         | Some (Inr genesis) \<Rightarrow> Some (Inr (h1, genesis)))"

definition Blockchain_init :: "heap \<Rightarrow> int \<Rightarrow> pyfloat \<Rightarrow> (error + heap \<times> blockchain) option" where
  "Blockchain_init h d now =
     (case create_genesis h d now of
        None \<Rightarrow> None
      | Some (Inl e) \<Rightarrow> Some (Inl e)
      | Some (Inr (h1, genesis)) \<Rightarrow> Some (Inr (h1, \<lparr>difficulty = d, chain_list = [genesis]\<rparr>)))"

text \<open>\<^verbatim>\<open>self.chain[-1]\<close> raises on an empty list.\<close>

definition tip :: "blockchain \<Rightarrow> error + block" where
  "tip bc = (if chain_list bc = [] then Inl IndexError else Inr (last (chain_list bc)))"

text \<open>
  \<^verbatim>\<open>add_block\<close>: the payload is the object at \<open>d\<close>, \<open>now\<close> the clock at the block's
  construction. The result is the chain with the block attached, and the block.
\<close>

definition add_block ::
  "heap \<Rightarrow> blockchain \<Rightarrow> pyfloat \<Rightarrow> ref \<Rightarrow> (error + blockchain \<times> block) option" where
  "add_block h bc now d =
     (case tip bc of
        Inl e \<Rightarrow> Some (Inl e)
      | Inr t \<Rightarrow>
          (let new_block = Block_init h (index t + 1) now d (hash t)
           in case mine h (difficulty bc) new_block of
                None \<Rightarrow> None
              | Some (Inl e) \<Rightarrow> Some (Inl e)
              | Some (Inr new_block) \<Rightarrow>
                  Some (Inr (bc\<lparr>chain_list := chain_list bc @ [new_block]\<rparr>, new_block))))"

text \<open>The four messages \<^verbatim>\<open>is_valid\<close> prints, each with the position it names.\<close>

datatype reason = Hash_mismatch | Fails_difficulty_target | Genesis_previous_hash | Previous_hash_link

fun is_valid_loop ::
  "heap \<Rightarrow> blockchain \<Rightarrow> (nat \<times> block) list \<Rightarrow> (nat \<times> reason) option" where
  "is_valid_loop h bc [] = None"
| "is_valid_loop h bc ((i, b) # rest) =
     (let target_prefix = replicate (nat (difficulty bc)) CHR ''0'';
          recalculated = compute_hash h b
      in if hash b \<noteq> recalculated then Some (i, Hash_mismatch)
         else if \<not> startswith (hash b) target_prefix then Some (i, Fails_difficulty_target)
         else if i = 0 then
           (if previous_hash b \<noteq> replicate 64 CHR ''0'' then Some (i, Genesis_previous_hash)
            else is_valid_loop h bc rest)
         else
           (let prev = chain_list bc ! (i - 1)
            in if previous_hash b \<noteq> hash prev then Some (i, Previous_hash_link)
               else is_valid_loop h bc rest))"

text \<open>The first failure \<^verbatim>\<open>is_valid\<close> reports, \<open>None\<close> when the loop runs to its end.\<close>

definition is_valid_report :: "heap \<Rightarrow> blockchain \<Rightarrow> (nat \<times> reason) option" where
  "is_valid_report h bc = is_valid_loop h bc (enumerate 0 (chain_list bc))"

text \<open>What one iteration of the loop of \<^verbatim>\<open>is_valid\<close> finds at position \<open>i\<close>.\<close>

definition block_check :: "heap \<Rightarrow> blockchain \<Rightarrow> nat \<Rightarrow> block \<Rightarrow> reason option" where
  "block_check h bc i b =
     (if hash b \<noteq> compute_hash h b then Some Hash_mismatch
      else if \<not> startswith (hash b) (replicate (nat (difficulty bc)) CHR ''0'')
        then Some Fails_difficulty_target
      else if i = 0 then
        (if previous_hash b \<noteq> replicate 64 CHR ''0'' then Some Genesis_previous_hash else None)
      else if previous_hash b \<noteq> hash (chain_list bc ! (i - 1)) then Some Previous_hash_link
      else None)"

text \<open>
  \<^verbatim>\<open>is_valid\<close> on the whole program state: the store, the chain and the lines printed so
  far. It returns the boolean and the state it leaves.
\<close>

record world =
  store :: heap
  ledger :: blockchain
  console :: "(nat \<times> reason) list"

definition is_valid :: "world \<Rightarrow> bool \<times> world" where
  "is_valid w =
     (case is_valid_report (store w) (ledger w) of
        None \<Rightarrow> (True, w)
      | Some msg \<Rightarrow> (False, w\<lparr>console := console w @ [msg]\<rparr>))"

section \<open>Tampering (menu entry 4 of \<^verbatim>\<open>interactive_demo\<close>)\<close>

text \<open>\<^verbatim>\<open>d[key] = value\<close> on a dict: the value is replaced in place, a new key goes last.\<close>

fun dict_set :: "string \<Rightarrow> json \<Rightarrow> (string \<times> json) list \<Rightarrow> (string \<times> json) list" where
  "dict_set k v [] = [(k, v)]"
| "dict_set k v ((k', x) # kvs) = (if k' = k then (k, v) # kvs else (k', x) # dict_set k v kvs)"

fun contains :: "string \<Rightarrow> string \<Rightarrow> bool" where
  "contains [] k = (k = [])"
| "contains (c # cs) k = (take (length k) (c # cs) = k \<or> contains cs k)"

datatype tamper_result = Modified heap | Invalid_field | Invalid_index | Raised error

text \<open>
  \<^verbatim>\<open>key in block.data\<close> and \<^verbatim>\<open>block.data[key] = new_value\<close>, for each kind of payload:
  only a dict can be modified; a list or a string that contains the key refuses the
  assignment, and the other values refuse the membership test.
\<close>

definition tamper :: "heap \<Rightarrow> blockchain \<Rightarrow> int \<Rightarrow> string \<Rightarrow> json \<Rightarrow> tamper_result" where
  "tamper h bc idx key new_value =
     (if 0 \<le> idx \<and> idx < int (length (chain_list bc)) then
        (let b = chain_list bc ! nat idx in
         case cells h (data b) of
           JObj kvs \<Rightarrow>
             (if key \<in> set (map fst kvs)
              then Modified (h\<lparr>cells := (cells h)(data b := JObj (dict_set key new_value kvs))\<rparr>)
              else Invalid_field)
         | JArr xs \<Rightarrow> (if JStr key \<in> set xs then Raised TypeError else Invalid_field)
         | JStr s \<Rightarrow> (if contains s key then Raised TypeError else Invalid_field)
         | _ \<Rightarrow> Raised TypeError)
      else Invalid_index)"

section \<open>Chains and how they come about\<close>

text \<open>
  The chains the three operations of the class produce, with the stores they live in:
  construction, a caller creating a payload object, and \<^verbatim>\<open>add_block\<close> on a payload the
  caller holds.
\<close>

inductive built :: "heap \<Rightarrow> blockchain \<Rightarrow> bool" where
  construct: "Blockchain_init h d now = Some (Inr (h', bc)) \<Longrightarrow> built h' bc"
| new_payload: "built h bc \<Longrightarrow> alloc h v = (r, h') \<Longrightarrow> built h' bc"
| append: "built h bc \<Longrightarrow> r < next_ref h \<Longrightarrow> add_block h bc now r = Some (Inr (bc', nb))
    \<Longrightarrow> built h bc'"

text \<open>The same, with tampering allowed in between.\<close>

inductive reachable :: "heap \<Rightarrow> blockchain \<Rightarrow> bool" where
  r_construct: "Blockchain_init h d now = Some (Inr (h', bc)) \<Longrightarrow> reachable h' bc"
| r_new_payload: "reachable h bc \<Longrightarrow> alloc h v = (r, h') \<Longrightarrow> reachable h' bc"
| r_append: "reachable h bc \<Longrightarrow> r < next_ref h \<Longrightarrow> add_block h bc now r = Some (Inr (bc', nb))
    \<Longrightarrow> reachable h bc'"
| r_tamper: "reachable h bc \<Longrightarrow> tamper h bc idx key v = Modified h' \<Longrightarrow> reachable h' bc"

text \<open>What holds of every chain built without tampering.\<close>

definition chain_ok :: "heap \<Rightarrow> blockchain \<Rightarrow> bool" where
  "chain_ok h bc \<longleftrightarrow>
     chain_list bc \<noteq> [] \<and> 0 \<le> difficulty bc
     \<and> list_all (\<lambda>b. data b < next_ref h) (chain_list bc)
     \<and> is_valid_report h bc = None"

section \<open>A chain at difficulty 1\<close>

text \<open>
  The values of a run of the program: a chain constructed at difficulty 1 when the clock
  reads 1700000002.5, a payload \<^verbatim>\<open>{"from": "A", "to": "B", "amount": 10.0}\<close> appended at
  1700000009.5 and once more at 1700000027.5, and the digests that occur.
\<close>

definition ts0 :: pyfloat where "ts0 = ''1700000002.5''"

definition ts1 :: pyfloat where "ts1 = ''1700000009.5''"

definition ts2 :: pyfloat where "ts2 = ''1700000027.5''"

definition payload1 :: json where
  "payload1 = JObj [(''from'', JStr ''A''), (''to'', JStr ''B''), (''amount'', JFloat ''10.0'')]"

definition payload1_tampered :: json where
  "payload1_tampered = JObj [(''from'', JStr ''A''), (''to'', JStr ''B''), (''amount'', JStr ''999'')]"

definition digest_g0 :: string where
  "digest_g0 = ''d2cc03685aba9304c5496c4b4a3385026fc6b03aae76416acdada5aeaad036a2''"

definition digest_g1 :: string where
  "digest_g1 = ''067268f6776ecd0d078b5f9d02799ed0f3898438b744617898739336e2cb490d''"

definition digest_b0 :: string where
  "digest_b0 = ''0e05bf52e97ced0a85c4905d39a7585ad45e06fc25fb3d90f0aec3a84e696d29''"

definition digest_b2 :: string where
  "digest_b2 = ''0441e57da7daed5893ea2739c1ddbba185d062b80bf2e97dff55d2439fff7b63''"

definition digest_t :: string where
  "digest_t = ''378baf0024a62030f6718fb329b34a51b333032cd09faa774b2ce11b388d95e3''"

definition digest_p :: string where
  "digest_p = ''319ce23abe137f0c74fce3ea53d38b1e7ba2f5ad96497be1b9ec7a882f686bcd''"

definition ex_heap0 :: heap where
  "ex_heap0 = \<lparr>cells = (\<lambda>_. JNull), next_ref = 0\<rparr>"

definition ex_heap1 :: heap where
  "ex_heap1 = \<lparr>cells = (\<lambda>_. JNull)(0 := genesis_payload), next_ref = 1\<rparr>"

definition ex_heap2 :: heap where
  "ex_heap2 = \<lparr>cells = (\<lambda>_. JNull)(0 := genesis_payload, 1 := payload1), next_ref = 2\<rparr>"

definition ex_heap3 :: heap where
  "ex_heap3 = \<lparr>cells = (\<lambda>_. JNull)(0 := genesis_payload, 1 := payload1_tampered), next_ref = 2\<rparr>"

definition ex_fresh :: block where
  "ex_fresh = Block_init ex_heap1 0 ts0 0 (replicate 64 CHR ''0'')"

definition ex_stale :: block where
  "ex_stale = \<lparr>index = 0, timestamp = ts0, data = 0, previous_hash = replicate 64 CHR ''0'',
     nonce = 1, hash = digest_g0\<rparr>"

definition ex_genesis :: block where
  "ex_genesis = \<lparr>index = 0, timestamp = ts0, data = 0, previous_hash = replicate 64 CHR ''0'',
     nonce = 1, hash = digest_g1\<rparr>"

definition ex_block1 :: block where
  "ex_block1 = \<lparr>index = 1, timestamp = ts1, data = 1, previous_hash = digest_g1,
     nonce = 0, hash = digest_b0\<rparr>"

definition ex_block2 :: block where
  "ex_block2 = \<lparr>index = 2, timestamp = ts2, data = 1, previous_hash = digest_b0,
     nonce = 0, hash = digest_b2\<rparr>"

definition ex_chain1 :: blockchain where
  "ex_chain1 = \<lparr>difficulty = 1, chain_list = [ex_genesis]\<rparr>"

definition ex_chain2 :: blockchain where
  "ex_chain2 = \<lparr>difficulty = 1, chain_list = [ex_genesis, ex_block1]\<rparr>"

definition ex_chain3 :: blockchain where
  "ex_chain3 = \<lparr>difficulty = 1, chain_list = [ex_genesis, ex_block1, ex_block2]\<rparr>"

definition ex_relinked :: blockchain where
  "ex_relinked = \<lparr>difficulty = 1, chain_list = [ex_genesis\<lparr>previous_hash := []\<rparr>]\<rparr>"

definition ex_forged :: blockchain where
  "ex_forged = \<lparr>difficulty = 0,
     chain_list = [ex_genesis\<lparr>previous_hash := [], hash := digest_p\<rparr>]\<rparr>"

text \<open>
  Two functions that only serve to evaluate a digest step by step.
\<close>

fun len_acc :: "nat \<Rightarrow> 'a list \<Rightarrow> nat" where
  "len_acc n [] = n"
| "len_acc n (x # xs) = len_acc (n + 1) xs"

definition round_aux ::
  "nat \<Rightarrow> nat \<Rightarrow> nat \<Rightarrow> nat \<Rightarrow> nat \<Rightarrow> nat \<Rightarrow> nat \<Rightarrow> nat \<Rightarrow> nat \<Rightarrow> nat list" where
  "round_aux a b c d e f g t1 t2 = [add32 t1 t2, a, b, c, add32 d t1, e, f, g]"

section \<open>Mining\<close>

lemma header_string_hash [simp]: "header_string h (b\<lparr>hash := x\<rparr>) = header_string h b"
  by (simp add: header_string_def)

lemma compute_hash_hash [simp]: "compute_hash h (b\<lparr>hash := x\<rparr>) = compute_hash h b"
  by (simp add: compute_hash_def)

lemma startswith_Nil [simp]: "startswith s []"
  by (simp add: startswith_def)

lemma mine_loop_unfold:
  "mine_loop h t b =
     (if startswith (compute_hash h b) t then Some (b\<lparr>hash := compute_hash h b\<rparr>)
      else mine_loop h t (b\<lparr>hash := compute_hash h b, nonce := nonce b + 1\<rparr>))"
  by (subst mine_loop.simps) (simp add: Let_def)

text \<open>What a returning search leaves: the first nonce from the current one on whose digest meets the target.\<close>

lemma mine_loop_result:
  assumes "mine_loop h t b = Some b'"
  shows "nonce b \<le> nonce b'
       \<and> b' = b\<lparr>nonce := nonce b', hash := compute_hash h (b\<lparr>nonce := nonce b'\<rparr>)\<rparr>
       \<and> startswith (compute_hash h (b\<lparr>nonce := nonce b'\<rparr>)) t
       \<and> (\<forall>m. nonce b \<le> m \<and> m < nonce b' \<longrightarrow> \<not> startswith (compute_hash h (b\<lparr>nonce := m\<rparr>)) t)"
  using assms
proof (induction rule: mine_loop.raw_induct [rotated 1, consumes 1])
  case (1 f h t b b')
  show ?case
  proof (cases "startswith (compute_hash h b) t")
    case True
    with 1(2) have b': "b' = b\<lparr>hash := compute_hash h b\<rparr>"
      by (simp add: Let_def)
    have "b\<lparr>nonce := nonce b\<rparr> = b" by simp
    with True b' show ?thesis by auto
  next
    case False
    let ?c = "b\<lparr>hash := compute_hash h b, nonce := nonce b + 1\<rparr>"
    from False 1(2) have "f h t ?c = Some b'"
      by (simp add: Let_def)
    from 1(1) [OF this] have IH:
      "nonce ?c \<le> nonce b'"
      "b' = ?c\<lparr>nonce := nonce b', hash := compute_hash h (?c\<lparr>nonce := nonce b'\<rparr>)\<rparr>"
      "startswith (compute_hash h (?c\<lparr>nonce := nonce b'\<rparr>)) t"
      "\<forall>m. nonce ?c \<le> m \<and> m < nonce b' \<longrightarrow> \<not> startswith (compute_hash h (?c\<lparr>nonce := m\<rparr>)) t"
      by blast+
    have c: "\<And>m. compute_hash h (?c\<lparr>nonce := m\<rparr>) = compute_hash h (b\<lparr>nonce := m\<rparr>)"
      by (simp add: compute_hash_def header_string_def)
    have "nonce b \<le> nonce b'" using IH(1) by simp
    moreover have "b' = b\<lparr>nonce := nonce b', hash := compute_hash h (b\<lparr>nonce := nonce b'\<rparr>)\<rparr>"
      using IH(2) c by simp
    moreover have "startswith (compute_hash h (b\<lparr>nonce := nonce b'\<rparr>)) t"
      using IH(3) c by simp
    moreover have "\<not> startswith (compute_hash h (b\<lparr>nonce := m\<rparr>)) t"
      if "nonce b \<le> m" "m < nonce b'" for m
    proof (cases "m = nonce b")
      case True
      then have "b\<lparr>nonce := m\<rparr> = b" by simp
      with False show ?thesis by simp
    next
      case False
      with that have "nonce ?c \<le> m" by simp
      with IH(4) that(2) c show ?thesis by simp
    qed
    ultimately show ?thesis by blast
  qed
qed

lemma mine_loop_empty_target: "mine_loop h [] b = Some (b\<lparr>hash := compute_hash h b\<rparr>)"
  by (subst mine_loop_unfold) simp

lemma mine_result:
  assumes "mine h d b = Some (Inr b')"
  shows "0 \<le> d" and "mine_loop h (replicate (nat d) CHR ''0'') b = Some b'"
  using assms by (auto simp: mine_def split: if_splits)

lemma mine_loop_fixed:
  assumes "mine_loop h t b = Some b'"
  shows "mine_loop h t b' = Some b'"
proof -
  from mine_loop_result [OF assms]
  have eq: "b' = b\<lparr>nonce := nonce b', hash := compute_hash h (b\<lparr>nonce := nonce b'\<rparr>)\<rparr>"
    and sw: "startswith (compute_hash h (b\<lparr>nonce := nonce b'\<rparr>)) t"
    by blast+
  have ch: "compute_hash h b' = compute_hash h (b\<lparr>nonce := nonce b'\<rparr>)"
    by (subst eq) (simp add: compute_hash_def header_string_def)
  have hb: "hash b' = compute_hash h b'"
    by (subst eq) (simp add: ch [symmetric])
  have "b'\<lparr>hash := compute_hash h b'\<rparr> = b'"
    using hb by simp
  with sw ch show ?thesis
    by (subst mine_loop_unfold) simp
qed

lemma mine_loop_hash:
  assumes "mine_loop h t b = Some b'"
  shows "hash b' = compute_hash h b'" and "startswith (hash b') t"
    and "index b' = index b" and "timestamp b' = timestamp b" and "data b' = data b"
    and "previous_hash b' = previous_hash b"
proof -
  from mine_loop_result [OF assms]
  have eq: "b' = b\<lparr>nonce := nonce b', hash := compute_hash h (b\<lparr>nonce := nonce b'\<rparr>)\<rparr>"
    and sw: "startswith (compute_hash h (b\<lparr>nonce := nonce b'\<rparr>)) t"
    by blast+
  have ch: "compute_hash h b' = compute_hash h (b\<lparr>nonce := nonce b'\<rparr>)"
    by (subst eq) (simp add: compute_hash_def header_string_def)
  show hb: "hash b' = compute_hash h b'"
    by (subst eq) (simp add: ch [symmetric])
  show "startswith (hash b') t" using hb ch sw by simp
  show "index b' = index b" by (subst eq) simp
  show "timestamp b' = timestamp b" by (subst eq) simp
  show "data b' = data b" by (subst eq) simp
  show "previous_hash b' = previous_hash b" by (subst eq) simp
qed

lemma Block_init_fields [simp]:
  "index (Block_init h i now d p) = i"
  "timestamp (Block_init h i now d p) = now"
  "data (Block_init h i now d p) = d"
  "previous_hash (Block_init h i now d p) = p"
  "nonce (Block_init h i now d p) = 0"
  by (simp_all add: Block_init_def Let_def)

lemma Block_init_hash: "hash (Block_init h i now d p) = compute_hash h (Block_init h i now d p)"
  by (simp add: Block_init_def Let_def compute_hash_def header_string_def)

lemma mine_fields:
  assumes "mine h d b = Some (Inr b')"
  shows "hash b' = compute_hash h b'"
    and "startswith (hash b') (replicate (nat d) CHR ''0'')"
    and "index b' = index b" and "timestamp b' = timestamp b" and "data b' = data b"
    and "previous_hash b' = previous_hash b" and "nonce b \<le> nonce b'"
proof -
  note l = mine_result(2) [OF assms]
  show "hash b' = compute_hash h b'" by (rule mine_loop_hash(1) [OF l])
  show "startswith (hash b') (replicate (nat d) CHR ''0'')" by (rule mine_loop_hash(2) [OF l])
  show "index b' = index b" by (rule mine_loop_hash(3) [OF l])
  show "timestamp b' = timestamp b" by (rule mine_loop_hash(4) [OF l])
  show "data b' = data b" by (rule mine_loop_hash(5) [OF l])
  show "previous_hash b' = previous_hash b" by (rule mine_loop_hash(6) [OF l])
  show "nonce b \<le> nonce b'" using mine_loop_result [OF l] by (rule conjunct1)
qed

subsection \<open>The loop statement by statement\<close>

lemma mine_step_Returned: "(mine_step h t ^^ n) (Returned, b) = (Returned, b)"
  by (induction n) auto

lemma mine_step_iteration:
  "(mine_step h t ^^ (n + 3)) (At_hash, b) =
     (if startswith (compute_hash h b) t then (Returned, b\<lparr>hash := compute_hash h b\<rparr>)
      else (mine_step h t ^^ n) (At_hash, b\<lparr>hash := compute_hash h b, nonce := nonce b + 1\<rparr>))"
  by (simp add: funpow_add numeral_3_eq_3 funpow_swap1 mine_step_Returned)

text \<open>The recursion and the statement-wise run are the same loop.\<close>

lemma mine_loop_run:
  assumes "mine_loop h t b = Some b'"
  shows "\<exists>n. (mine_step h t ^^ n) (At_hash, b) = (Returned, b')"
  using assms
proof (induction rule: mine_loop.raw_induct [rotated 1, consumes 1])
  case (1 f h t b b')
  show ?case
  proof (cases "startswith (compute_hash h b) t")
    case True
    with 1(2) have "b' = b\<lparr>hash := compute_hash h b\<rparr>" by (simp add: Let_def)
    with True mine_step_iteration [where h=h and t=t and n=0 and b=b] show ?thesis by auto
  next
    case False
    with 1(2) have "f h t (b\<lparr>hash := compute_hash h b, nonce := nonce b + 1\<rparr>) = Some b'"
      by (simp add: Let_def)
    from 1(1) [OF this] obtain n where
      "(mine_step h t ^^ n) (At_hash, b\<lparr>hash := compute_hash h b, nonce := nonce b + 1\<rparr>) = (Returned, b')"
      by blast
    with False mine_step_iteration [where h=h and t=t and n=n and b=b] show ?thesis by auto
  qed
qed

lemma run_mine_loop:
  "(mine_step h t ^^ n) (At_hash, b) = (Returned, b') \<Longrightarrow> mine_loop h t b = Some b'"
proof (induction n arbitrary: b rule: less_induct)
  case (less n)
  show ?case
  proof (cases "n < 3")
    case True
    then consider "n = 0" | "n = 1" | "n = 2" by linarith
    then show ?thesis
    proof cases
      case 1
      with less.prems show ?thesis by simp
    next
      case 2
      with less.prems show ?thesis by simp
    next
      case 3
      with less.prems have "startswith (compute_hash h b) t" "b' = b\<lparr>hash := compute_hash h b\<rparr>"
        by (auto simp: numeral_2_eq_2 split: if_splits)
      then show ?thesis by (subst mine_loop_unfold) simp
    qed
  next
    case False
    then obtain k where n: "n = k + 3" by (metis add.commute le_Suc_ex not_less)
    show ?thesis
    proof (cases "startswith (compute_hash h b) t")
      case True
      with less.prems n mine_step_iteration [where h=h and t=t and n=k and b=b] show ?thesis
        by (subst mine_loop_unfold) simp
    next
      case False
      with less.prems n mine_step_iteration [where h=h and t=t and n=k and b=b]
      have "(mine_step h t ^^ k) (At_hash, b\<lparr>hash := compute_hash h b, nonce := nonce b + 1\<rparr>) = (Returned, b')"
        by simp
      with less.IH [of k] n have "mine_loop h t (b\<lparr>hash := compute_hash h b, nonce := nonce b + 1\<rparr>) = Some b'"
        by simp
      with False show ?thesis by (subst mine_loop_unfold) simp
    qed
  qed
qed

lemma mine_step_tested:
  assumes "(mine_step h t ^^ n) (At_hash, b) = (At_test, b')"
  shows "hash b' = compute_hash h b'"
proof (cases n)
  case 0
  with assms show ?thesis by simp
next
  case (Suc m)
  obtain p c where pc: "(mine_step h t ^^ m) (At_hash, b) = (p, c)"
    by (cases "(mine_step h t ^^ m) (At_hash, b)")
  with assms Suc have "mine_step h t (p, c) = (At_test, b')" by simp
  then have "b' = c\<lparr>hash := compute_hash h c\<rparr>"
    by (cases p) (auto split: if_splits)
  then show ?thesis by simp
qed

lemma mine_step_fresh:
  assumes "hash b0 = compute_hash h b0"
  shows "(mine_step h t ^^ n) (At_hash, b0) = (p, b) \<Longrightarrow>
     (p = At_hash \<longrightarrow> (if n = 0 then hash b = compute_hash h b
                         else hash b = compute_hash h (b\<lparr>nonce := nonce b - 1\<rparr>)))
     \<and> (p \<noteq> At_hash \<longrightarrow> hash b = compute_hash h b)"
proof (induction n arbitrary: p b)
  case 0
  with assms show ?case by simp
next
  case (Suc n)
  obtain q c where qc: "(mine_step h t ^^ n) (At_hash, b0) = (q, c)"
    by (cases "(mine_step h t ^^ n) (At_hash, b0)")
  note IH = Suc.IH [OF qc]
  from Suc.prems qc have step: "mine_step h t (q, c) = (p, b)" by simp
  show ?case
  proof (cases q)
    case At_hash
    with step have "p = At_test" "b = c\<lparr>hash := compute_hash h c\<rparr>" by auto
    then show ?thesis by simp
  next
    case At_test
    with step have "p \<noteq> At_hash" "b = c" by (auto split: if_splits)
    with IH At_test show ?thesis by simp
  next
    case At_incr
    with step have pb: "p = At_hash" "b = c\<lparr>nonce := nonce c + 1\<rparr>" by auto
    have "b\<lparr>nonce := nonce b - 1\<rparr> = c" using pb(2) by simp
    with IH At_incr pb(1) have "hash b = compute_hash h (b\<lparr>nonce := nonce b - 1\<rparr>)"
      using pb(2) by simp
    with pb(1) show ?thesis by simp
  next
    case Returned
    with step have "p = Returned" "b = c" by auto
    with IH Returned show ?thesis by simp
  qed
qed

section \<open>Validation\<close>

lemma is_valid_loop_Cons:
  "is_valid_loop h bc ((i, b) # rest) =
     (case block_check h bc i b of Some r \<Rightarrow> Some (i, r) | None \<Rightarrow> is_valid_loop h bc rest)"
  by (simp add: block_check_def Let_def)

lemma is_valid_loop_None:
  "is_valid_loop h bc (enumerate n xs) = None \<longleftrightarrow>
     (\<forall>j < length xs. block_check h bc (n + j) (xs ! j) = None)"
proof (induction xs arbitrary: n)
  case Nil
  show ?case by simp
next
  case (Cons x xs)
  have "(\<forall>j < length (x # xs). block_check h bc (n + j) ((x # xs) ! j) = None) \<longleftrightarrow>
        block_check h bc n x = None \<and> (\<forall>j < length xs. block_check h bc (Suc n + j) (xs ! j) = None)"
    by (auto simp: less_Suc_eq_0_disj)
  with Cons.IH [of "Suc n"] show ?case
    by (simp add: is_valid_loop_Cons del: is_valid_loop.simps split: option.splits)
qed

lemma is_valid_loop_Some:
  "is_valid_loop h bc (enumerate n xs) = Some (i, r) \<longleftrightarrow>
     (\<exists>k < length xs. i = n + k \<and> block_check h bc i (xs ! k) = Some r
        \<and> (\<forall>j < k. block_check h bc (n + j) (xs ! j) = None))"
proof (induction xs arbitrary: n)
  case Nil
  show ?case by simp
next
  case (Cons x xs)
  show ?case
  proof (cases "block_check h bc n x")
    case (Some r')
    have "(\<exists>k < length (x # xs). i = n + k \<and> block_check h bc i ((x # xs) ! k) = Some r
        \<and> (\<forall>j < k. block_check h bc (n + j) ((x # xs) ! j) = None)) \<longleftrightarrow> i = n \<and> r = r'"
    proof
      assume "\<exists>k < length (x # xs). i = n + k \<and> block_check h bc i ((x # xs) ! k) = Some r
        \<and> (\<forall>j < k. block_check h bc (n + j) ((x # xs) ! j) = None)"
      then obtain k where k: "i = n + k" "block_check h bc i ((x # xs) ! k) = Some r"
        "\<forall>j < k. block_check h bc (n + j) ((x # xs) ! j) = None" by blast
      have "k = 0"
      proof (rule ccontr)
        assume "k \<noteq> 0"
        then have "0 < k" by simp
        with k(3) have "block_check h bc (n + 0) ((x # xs) ! 0) = None" by blast
        with Some show False by simp
      qed
      with k Some show "i = n \<and> r = r'" by simp
    next
      assume "i = n \<and> r = r'"
      with Some show "\<exists>k < length (x # xs). i = n + k \<and> block_check h bc i ((x # xs) ! k) = Some r
        \<and> (\<forall>j < k. block_check h bc (n + j) ((x # xs) ! j) = None)"
        by (intro exI [of _ 0]) simp
    qed
    with Some show ?thesis
      by (auto simp: is_valid_loop_Cons simp del: is_valid_loop.simps)
  next
    case None
    have "(\<exists>k < length (x # xs). i = n + k \<and> block_check h bc i ((x # xs) ! k) = Some r
        \<and> (\<forall>j < k. block_check h bc (n + j) ((x # xs) ! j) = None)) \<longleftrightarrow>
      (\<exists>k < length xs. i = Suc n + k \<and> block_check h bc i (xs ! k) = Some r
        \<and> (\<forall>j < k. block_check h bc (Suc n + j) (xs ! j) = None))" (is "?L \<longleftrightarrow> ?R")
    proof
      assume ?L
      then obtain k where k: "k < length (x # xs)" "i = n + k"
        "block_check h bc i ((x # xs) ! k) = Some r"
        "\<forall>j < k. block_check h bc (n + j) ((x # xs) ! j) = None" by blast
      from k(2,3) None have "k \<noteq> 0" by (cases k) auto
      then obtain k' where k': "k = Suc k'" by (cases k) auto
      have "\<forall>j < k'. block_check h bc (Suc n + j) (xs ! j) = None"
      proof (intro allI impI)
        fix j assume "j < k'"
        then have "Suc j < k" using k' by simp
        with k(4) have "block_check h bc (n + Suc j) ((x # xs) ! Suc j) = None" by blast
        then show "block_check h bc (Suc n + j) (xs ! j) = None" by simp
      qed
      with k k' show ?R by (intro exI [of _ k']) simp
    next
      assume ?R
      then obtain k where k: "k < length xs" "i = Suc n + k"
        "block_check h bc i (xs ! k) = Some r"
        "\<forall>j < k. block_check h bc (Suc n + j) (xs ! j) = None" by blast
      have "\<forall>j < Suc k. block_check h bc (n + j) ((x # xs) ! j) = None"
      proof (intro allI impI)
        fix j assume j: "j < Suc k"
        show "block_check h bc (n + j) ((x # xs) ! j) = None"
        proof (cases j)
          case 0
          with None show ?thesis by simp
        next
          case (Suc j')
          with j k(4) show ?thesis by simp
        qed
      qed
      with k show ?L by (intro exI [of _ "Suc k"]) simp
    qed
    with None Cons.IH [of "Suc n"] show ?thesis
      by (simp add: is_valid_loop_Cons del: is_valid_loop.simps)
  qed
qed

lemma is_valid_report_None:
  "is_valid_report h bc = None \<longleftrightarrow>
     (\<forall>j < length (chain_list bc). block_check h bc j (chain_list bc ! j) = None)"
  by (simp add: is_valid_report_def is_valid_loop_None)

lemma is_valid_report_Some:
  "is_valid_report h bc = Some (i, r) \<longleftrightarrow>
     i < length (chain_list bc) \<and> block_check h bc i (chain_list bc ! i) = Some r
       \<and> (\<forall>j < i. block_check h bc j (chain_list bc ! j) = None)"
  by (auto simp: is_valid_report_def is_valid_loop_Some)

lemma is_valid_fst: "fst (is_valid w) \<longleftrightarrow> is_valid_report (store w) (ledger w) = None"
  by (simp add: is_valid_def split: option.splits)

section \<open>Construction, appending and tampering\<close>

lemma fst_alloc: "fst (alloc h v) = next_ref h"
  by (simp add: alloc_def)

lemma create_genesis_unfold: "create_genesis h d now =
      (case mine (snd (alloc h genesis_payload)) d (Block_init (snd (alloc h genesis_payload)) 0 now (next_ref h) (replicate 64 CHR ''0'')) of None \<Rightarrow> None | Some (Inl e) \<Rightarrow> Some (Inl e)
       | Some (Inr g) \<Rightarrow> Some (Inr (snd (alloc h genesis_payload), g)))"
    by (simp add: create_genesis_def Let_def split_beta fst_alloc)

lemma Blockchain_init_result:
  assumes "Blockchain_init h d now = Some (Inr (h', bc))"
  shows "h' = snd (alloc h genesis_payload)" and "difficulty bc = d"
    and "\<exists>g. chain_list bc = [g] \<and>
           mine h' d (Block_init h' 0 now (next_ref h) (replicate 64 CHR ''0'')) = Some (Inr g)"
proof -
  let ?h1 = "snd (alloc h genesis_payload)"
  let ?m = "mine ?h1 d (Block_init ?h1 0 now (next_ref h) (replicate 64 CHR ''0''))"
  have *: "(case ?m of None \<Rightarrow> None | Some (Inl e) \<Rightarrow> Some (Inl e)
       | Some (Inr g) \<Rightarrow> Some (Inr (?h1, \<lparr>difficulty = d, chain_list = [g]\<rparr>))) = Some (Inr (h', bc))"
    using assms unfolding Blockchain_init_def create_genesis_unfold
    by (auto split: option.splits sum.splits)
  have "\<exists>g. ?m = Some (Inr g) \<and> h' = ?h1 \<and> bc = \<lparr>difficulty = d, chain_list = [g]\<rparr>"
    using * by (simp split: option.splits sum.splits) 
  then obtain g where g: "?m = Some (Inr g)" and r: "h' = ?h1" "bc = \<lparr>difficulty = d, chain_list = [g]\<rparr>"
    by blast
  show "h' = ?h1" by (rule r(1))
  show "difficulty bc = d" by (simp add: r(2))
  show "\<exists>g. chain_list bc = [g] \<and>
           mine h' d (Block_init h' 0 now (next_ref h) (replicate 64 CHR ''0'')) = Some (Inr g)"
    using g r by simp
qed

lemma add_block_result:
  assumes "add_block h bc now d = Some (Inr (bc', nb))"
  shows "chain_list bc \<noteq> []"
    and "mine h (difficulty bc)
           (Block_init h (index (last (chain_list bc)) + 1) now d (hash (last (chain_list bc))))
         = Some (Inr nb)"
    and "bc' = bc\<lparr>chain_list := chain_list bc @ [nb]\<rparr>"
proof -
  show ne: "chain_list bc \<noteq> []"
  proof
    assume "chain_list bc = []"
    then have "add_block h bc now d = Some (Inl IndexError)"
      by (simp add: add_block_def tip_def)
    with assms show False by simp
  qed
  let ?m = "mine h (difficulty bc)
           (Block_init h (index (last (chain_list bc)) + 1) now d (hash (last (chain_list bc))))"
  have ab: "add_block h bc now d =
      (case ?m of None \<Rightarrow> None | Some (Inl e) \<Rightarrow> Some (Inl e)
       | Some (Inr b) \<Rightarrow> Some (Inr (bc\<lparr>chain_list := chain_list bc @ [b]\<rparr>, b)))"
    using ne by (simp add: add_block_def tip_def Let_def)
  show "?m = Some (Inr nb)"
  proof (cases ?m)
    case None
    with assms ab show ?thesis by simp
  next
    case (Some res)
    with assms ab show ?thesis by (cases res) simp_all
  qed
  with assms ab show "bc' = bc\<lparr>chain_list := chain_list bc @ [nb]\<rparr>"
    by simp
qed

lemma compute_hash_cells:
  "cells h' (data b) = cells h (data b) \<Longrightarrow> compute_hash h' b = compute_hash h b"
  by (simp add: compute_hash_def header_string_def)

lemma block_check_cells:
  "cells h' (data b) = cells h (data b) \<Longrightarrow> block_check h' bc i b = block_check h bc i b"
  using compute_hash_cells [of h' b h] by (simp add: block_check_def)

lemma alloc_cells:
  "alloc h v = (r, h') \<Longrightarrow> a < next_ref h \<Longrightarrow> cells h' a = cells h a"
  by (auto simp: alloc_def)

lemma alloc_next_ref: "alloc h v = (r, h') \<Longrightarrow> r = next_ref h \<and> next_ref h' = Suc (next_ref h)"
  by (auto simp: alloc_def)

lemma chain_ok_construct:
  assumes "Blockchain_init h d now = Some (Inr (h', bc))"
  shows "chain_ok h' bc"
proof -
  from Blockchain_init_result [OF assms] obtain g where
    h': "h' = snd (alloc h genesis_payload)" and d: "difficulty bc = d" and
    g: "chain_list bc = [g]"
       "mine h' d (Block_init h' 0 now (next_ref h) (replicate 64 CHR ''0'')) = Some (Inr g)"
    by blast
  note m = mine_fields [OF g(2)]
  have "block_check h' bc 0 g = None"
    using m d by (simp add: block_check_def)
  moreover have "data g < next_ref h'" using m h' by (simp add: alloc_def)
  moreover have "0 \<le> d" using mine_result(1) [OF g(2)] .
  ultimately show ?thesis
    using g(1) d by (simp add: chain_ok_def is_valid_report_None)
qed

lemma chain_ok_new_payload:
  assumes "chain_ok h bc" and "alloc h v = (r, h')"
  shows "chain_ok h' bc"
proof -
  have live: "\<And>b. b \<in> set (chain_list bc) \<Longrightarrow> data b < next_ref h"
    using assms(1) by (simp add: chain_ok_def list_all_iff)
  have "block_check h' bc j (chain_list bc ! j) = None" if "j < length (chain_list bc)" for j
  proof -
    have "chain_list bc ! j \<in> set (chain_list bc)" using that by simp
    from alloc_cells [OF assms(2) live [OF this]]
    have "block_check h' bc j (chain_list bc ! j) = block_check h bc j (chain_list bc ! j)"
      by (rule block_check_cells)
    with assms(1) that show ?thesis by (simp add: chain_ok_def is_valid_report_None)
  qed
  moreover have "list_all (\<lambda>b. data b < next_ref h') (chain_list bc)"
  proof -
    have "next_ref h < next_ref h'" using alloc_next_ref [OF assms(2)] by simp
    with live show ?thesis unfolding list_all_iff by (meson less_trans)
  qed
  ultimately show ?thesis
    using assms(1) by (simp add: chain_ok_def is_valid_report_None)
qed

lemma chain_ok_append:
  assumes "chain_ok h bc" and "r < next_ref h"
    and "add_block h bc now r = Some (Inr (bc', nb))"
  shows "chain_ok h bc'"
proof -
  note a = add_block_result [OF assms(3)]
  note m = mine_fields [OF a(2)]
  let ?xs = "chain_list bc"
  have bc': "chain_list bc' = ?xs @ [nb]" "difficulty bc' = difficulty bc"
    using a(3) by simp_all
  have old: "\<And>j. j < length ?xs \<Longrightarrow> block_check h bc j (?xs ! j) = None"
    using assms(1) by (simp add: chain_ok_def is_valid_report_None)
  have "block_check h bc' j (chain_list bc' ! j) = None" if "j < length (chain_list bc')" for j
  proof (cases "j < length ?xs")
    case True
    then have "j - 1 < length ?xs" by simp
    with True have "block_check h bc' j (chain_list bc' ! j) = block_check h bc j (?xs ! j)"
      by (simp add: block_check_def bc' nth_append)
    with old [OF True] show ?thesis by simp
  next
    case False
    with that have j: "j = length ?xs" by (simp add: bc')
    have "0 < j" using a(1) j by simp
    then have "(?xs @ [nb]) ! (j - 1) = last ?xs"
      using j a(1) by (simp add: nth_append last_conv_nth)
    with m j \<open>0 < j\<close> show ?thesis
      by (simp add: block_check_def bc')
  qed
  moreover have "list_all (\<lambda>b. data b < next_ref h) (chain_list bc')"
    using assms(1,2) m by (simp add: chain_ok_def bc')
  ultimately show ?thesis
    using assms(1) by (simp add: chain_ok_def is_valid_report_None bc')
qed

lemma built_chain_ok: "built h bc \<Longrightarrow> chain_ok h bc"
proof (induction rule: built.induct)
  case (construct h d now h' bc)
  then show ?case by (rule chain_ok_construct)
next
  case (new_payload h bc v r h')
  then show ?case by (blast intro: chain_ok_new_payload)
next
  case (append h bc r now bc' nb)
  then show ?case by (blast intro: chain_ok_append)
qed

lemma tamper_Modified:
  assumes "tamper h bc idx key v = Modified h'"
  shows "0 \<le> idx" and "idx < int (length (chain_list bc))"
    and "\<exists>kvs. cells h (data (chain_list bc ! nat idx)) = JObj kvs \<and> key \<in> fst ` set kvs
          \<and> h' = h\<lparr>cells := (cells h)(data (chain_list bc ! nat idx) := JObj (dict_set key v kvs))\<rparr>"
  using assms
  by (auto simp: tamper_def Let_def split: if_splits json.splits)

lemma reachable_genesis:
  "reachable h bc \<Longrightarrow>
     chain_list bc \<noteq> [] \<and> previous_hash (chain_list bc ! 0) = replicate 64 CHR ''0''"
proof (induction rule: reachable.induct)
  case (r_construct h d now h' bc)
  from Blockchain_init_result(3) [OF r_construct] obtain g where
    g: "chain_list bc = [g]"
       "mine h' d (Block_init h' 0 now (next_ref h) (replicate 64 CHR ''0'')) = Some (Inr g)"
    by blast
  have "previous_hash g = replicate 64 CHR ''0''"
    using mine_fields(6) [OF g(2)] by (simp only: Block_init_fields)
  with g(1) show ?case by simp
next
  case (r_new_payload h bc v r h')
  then show ?case by blast
next
  case (r_append h bc r now bc' nb)
  have "chain_list bc' = chain_list bc @ [nb]"
    using add_block_result(3) [OF r_append(3)] by simp
  with r_append.IH show ?case
    by (simp add: nth_append)
next
  case (r_tamper h bc idx key v h')
  then show ?case by blast
qed

section \<open>Evaluating digests\<close>

lemma len_acc_length: "len_acc n xs = n + length xs"
  by (induction xs arbitrary: n) auto

lemma pad_eval:
  "pad bs = (\<lambda>l. bs @ [128] @ replicate ((119 - l mod 64) mod 64) 0
         @ map (\<lambda>i. (8 * l) div 256 ^ (7 - i) mod 256) [0, 1, 2, 3, 4, 5, 6, 7]) (len_acc 0 bs)"
  by (simp add: pad_def len_acc_length Let_def upt_rec)

lemma round_eval:
  "round256 [a, b, c, d, e, f, g, h] (k, w) =
     round_aux a b c d e f g (add32 (add32 (add32 (add32 h (Sigma1 e)) (Ch e f g)) k) w)
       (add32 (Sigma0 a) (Maj a b c))"
  by (simp add: round_aux_def Let_def)

lemma schedule_eval:
  "schedule n ws = (if n = 0 then ws else
     schedule (n - 1) (add32 (add32 (add32 (sigma1 (ws ! 1)) (ws ! 6)) (sigma0 (ws ! 14))) (ws ! 15) # ws))"
  by (cases n) auto

lemma hex32_eval:
  "hex32 w = map (\<lambda>i. ''0123456789abcdef'' ! (w div 16 ^ (7 - i) mod 16)) [0, 1, 2, 3, 4, 5, 6, 7]"
  by (simp add: hex32_def upt_rec)

lemma replicate_eval: "replicate n x = (if n = 0 then [] else x # replicate (n - 1) x)"
  by (cases n) auto

lemmas sha_eval = sha256_hex_def hexdigest_def sha256_def pad_eval replicate_eval compress_def
  round_eval round_aux_def schedule_eval hex32_eval K256_def H256_def add32_def rotr_def
  shr_def Ch_def Maj_def Sigma0_def Sigma1_def sigma0_def sigma1_def utf8_def

lemmas header_eval = compute_hash_def header_string_def encode_str_def escape_char_def
  sort_items_def str_int_def digits.simps float_str_def genesis_payload_def

text \<open>The test vector of the standard.\<close>

lemma sha256_hex_abc:
  "sha256_hex ''abc'' = ''ba7816bf8f01cfea414140de5dae2223b00361a396177a9cb410ff61f20015ad''"
  by (simp add: sha_eval del: round256.simps schedule.simps)

lemma digest_genesis_0:
  assumes "cells h (data b) = genesis_payload" "index b = 0" "timestamp b = ts0"
    "previous_hash b = replicate 64 CHR ''0''" "nonce b = 0"
  shows "compute_hash h b = digest_g0"
  by (simp add: assms header_eval sha_eval ts0_def digest_g0_def
           del: round256.simps schedule.simps)

lemma digest_genesis_1:
  assumes "cells h (data b) = genesis_payload" "index b = 0" "timestamp b = ts0"
    "previous_hash b = replicate 64 CHR ''0''" "nonce b = 1"
  shows "compute_hash h b = digest_g1"
  by (simp add: assms header_eval sha_eval ts0_def digest_g1_def
           del: round256.simps schedule.simps)

lemma digest_block_1:
  assumes "cells h (data b) = payload1" "index b = 1" "timestamp b = ts1"
    "previous_hash b = digest_g1" "nonce b = 0"
  shows "compute_hash h b = digest_b0"
  by (simp add: assms header_eval sha_eval ts1_def digest_g1_def digest_b0_def payload1_def
           del: round256.simps schedule.simps)

lemma digest_block_2:
  assumes "cells h (data b) = payload1" "index b = 2" "timestamp b = ts2"
    "previous_hash b = digest_b0" "nonce b = 0"
  shows "compute_hash h b = digest_b2"
  by (simp add: assms header_eval sha_eval ts2_def digest_b0_def digest_b2_def payload1_def
           del: round256.simps schedule.simps)

lemma digest_block_1_tampered:
  assumes "cells h (data b) = payload1_tampered" "index b = 1" "timestamp b = ts1"
    "previous_hash b = digest_g1" "nonce b = 0"
  shows "compute_hash h b = digest_t"
  by (simp add: assms header_eval sha_eval ts1_def digest_g1_def digest_t_def payload1_tampered_def
           del: round256.simps schedule.simps)

lemma digest_genesis_relinked:
  assumes "cells h (data b) = genesis_payload" "index b = 0" "timestamp b = ts0"
    "previous_hash b = []" "nonce b = 1"
  shows "compute_hash h b = digest_p"
  by (simp add: assms header_eval sha_eval ts0_def digest_p_def
           del: round256.simps schedule.simps)

section \<open>The chain at difficulty 1, step by step\<close>

lemma ex_cells:
  "cells ex_heap1 0 = genesis_payload" "cells ex_heap2 0 = genesis_payload"
  "cells ex_heap2 1 = payload1" "cells ex_heap3 0 = genesis_payload"
  "cells ex_heap3 1 = payload1_tampered"
  "cells ex_heap2 (Suc 0) = payload1" "cells ex_heap3 (Suc 0) = payload1_tampered"
  by (simp_all add: ex_heap1_def ex_heap2_def ex_heap3_def)

lemma digests_differ:
  "\<not> startswith digest_g0 [CHR ''0'']" "startswith digest_g1 [CHR ''0'']"
  "startswith digest_b0 [CHR ''0'']" "digest_g0 \<noteq> digest_g1" "digest_t \<noteq> digest_b0"
  "digest_p \<noteq> digest_g1"
  by (simp_all add: startswith_def digest_g0_def digest_g1_def digest_b0_def digest_t_def
        digest_p_def)

lemma ex_fresh_hash: "ex_fresh = \<lparr>index = 0, timestamp = ts0, data = 0,
    previous_hash = replicate 64 CHR ''0'', nonce = 0, hash = digest_g0\<rparr>"
proof -
  have "compute_hash ex_heap1 \<lparr>index = 0, timestamp = ts0, data = 0,
      previous_hash = replicate 64 CHR ''0'', nonce = 0, hash = []\<rparr> = digest_g0"
    by (rule digest_genesis_0) (simp_all add: ex_cells)
  then show ?thesis by (simp add: ex_fresh_def Block_init_def)
qed

lemma ex_hashes:
  "compute_hash ex_heap1 ex_fresh = digest_g0"
  "compute_hash ex_heap1 ex_stale = digest_g1"
  "compute_hash ex_heap1 ex_genesis = digest_g1"
  "compute_hash ex_heap2 ex_genesis = digest_g1"
  "compute_hash ex_heap3 ex_genesis = digest_g1"
  "compute_hash ex_heap2 ex_block1 = digest_b0"
  "compute_hash ex_heap3 ex_block1 = digest_t"
proof -
  show "compute_hash ex_heap1 ex_fresh = digest_g0"
    by (rule digest_genesis_0) (simp_all add: ex_cells ex_fresh_hash)
  show "compute_hash ex_heap1 ex_stale = digest_g1"
    by (rule digest_genesis_1) (simp_all add: ex_cells ex_stale_def)
  show "compute_hash ex_heap1 ex_genesis = digest_g1"
    by (rule digest_genesis_1) (simp_all add: ex_cells ex_genesis_def)
  show "compute_hash ex_heap2 ex_genesis = digest_g1"
    by (rule digest_genesis_1) (simp_all add: ex_cells ex_genesis_def)
  show "compute_hash ex_heap3 ex_genesis = digest_g1"
    by (rule digest_genesis_1) (simp_all add: ex_cells ex_genesis_def)
  show "compute_hash ex_heap2 ex_block1 = digest_b0"
    by (rule digest_block_1) (simp_all add: ex_cells ex_block1_def)
  show "compute_hash ex_heap3 ex_block1 = digest_t"
    by (rule digest_block_1_tampered) (simp_all add: ex_cells ex_block1_def)
qed

lemma ex_first_iteration:
  "ex_fresh\<lparr>hash := digest_g0, nonce := nonce ex_fresh + 1\<rparr> = ex_stale"
  by (simp add: ex_fresh_hash ex_stale_def)

lemma ex_second_iteration: "ex_stale\<lparr>hash := digest_g1\<rparr> = ex_genesis"
  by (simp add: ex_stale_def ex_genesis_def)

lemma ex_mine_loop: "mine_loop ex_heap1 [CHR ''0''] ex_fresh = Some ex_genesis"
proof -
  have "mine_loop ex_heap1 [CHR ''0''] ex_fresh = mine_loop ex_heap1 [CHR ''0''] ex_stale"
    by (subst mine_loop_unfold) (simp add: ex_hashes digests_differ ex_first_iteration)
  also have "\<dots> = Some ex_genesis"
    by (subst mine_loop_unfold) (simp add: ex_hashes digests_differ ex_second_iteration)
  finally show ?thesis .
qed

lemma ex_mine: "mine ex_heap1 1 ex_fresh = Some (Inr ex_genesis)"
  by (simp add: mine_def ex_mine_loop)

lemma ex_run_1:
  "(mine_step ex_heap1 [CHR ''0''] ^^ 1) (At_hash, ex_fresh) = (At_test, ex_fresh)"
proof -
  have "ex_fresh\<lparr>hash := digest_g0\<rparr> = ex_fresh" by (simp add: ex_fresh_hash)
  then show ?thesis by (simp add: ex_hashes)
qed

lemma ex_run_3: "(mine_step ex_heap1 [CHR ''0''] ^^ 3) (At_hash, ex_fresh) = (At_hash, ex_stale)"
  by (simp add: numeral_3_eq_3 ex_hashes digests_differ ex_first_iteration)

lemma ex_construct: "Blockchain_init ex_heap0 1 ts0 = Some (Inr (ex_heap1, ex_chain1))"
proof -
  have "alloc ex_heap0 genesis_payload = (0, ex_heap1)"
    by (simp add: alloc_def ex_heap0_def ex_heap1_def)
  then show ?thesis
    using ex_mine
    by (simp add: Blockchain_init_def create_genesis_def ex_fresh_def ex_chain1_def)
qed

lemma ex_alloc: "alloc ex_heap1 payload1 = (1, ex_heap2)"
  by (simp add: alloc_def ex_heap1_def ex_heap2_def)

lemma ex_candidate:
  "Block_init ex_heap2 (index ex_genesis + 1) ts1 1 (hash ex_genesis) = ex_block1"
proof -
  have "compute_hash ex_heap2 \<lparr>index = 1, timestamp = ts1, data = 1,
      previous_hash = digest_g1, nonce = 0, hash = []\<rparr> = digest_b0"
    by (rule digest_block_1) (simp_all add: ex_cells)
  then show ?thesis
    by (simp add: Block_init_def ex_genesis_def ex_block1_def)
qed

lemma ex_mine_block1: "mine ex_heap2 1 ex_block1 = Some (Inr ex_block1)"
proof -
  have "ex_block1\<lparr>hash := digest_b0\<rparr> = ex_block1"
    by (simp add: ex_block1_def)
  then have "mine_loop ex_heap2 [CHR ''0''] ex_block1 = Some ex_block1"
    by (subst mine_loop_unfold) (simp add: ex_hashes digests_differ)
  then show ?thesis by (simp add: mine_def)
qed

lemma ex_add_block: "add_block ex_heap2 ex_chain1 ts1 1 = Some (Inr (ex_chain2, ex_block1))"
proof -
  have "tip ex_chain1 = Inr ex_genesis"
    by (simp add: tip_def ex_chain1_def)
  moreover have "difficulty ex_chain1 = 1"
    by (simp add: ex_chain1_def)
  moreover have "ex_chain1\<lparr>chain_list := chain_list ex_chain1 @ [ex_block1]\<rparr> = ex_chain2"
    by (simp add: ex_chain1_def ex_chain2_def)
  ultimately show ?thesis
    using ex_mine_block1 by (simp add: add_block_def ex_candidate [unfolded One_nat_def])
qed

lemma ex_built: "built ex_heap2 ex_chain2"
proof -
  have "built ex_heap1 ex_chain1" using ex_construct by (rule built.construct)
  then have "built ex_heap2 ex_chain1" using ex_alloc by (rule built.new_payload)
  moreover have "1 < next_ref ex_heap2" by (simp add: ex_heap2_def)
  ultimately show ?thesis using ex_add_block by (rule built.append)
qed

lemma ex_candidate2:
  "Block_init ex_heap2 (index ex_block1 + 1) ts2 (Suc 0) (hash ex_block1) = ex_block2"
proof -
  have "compute_hash ex_heap2 \<lparr>index = 2, timestamp = ts2, data = Suc 0,
      previous_hash = digest_b0, nonce = 0, hash = []\<rparr> = digest_b2"
    by (rule digest_block_2) (simp_all add: ex_cells)
  then show ?thesis
    by (simp add: Block_init_def ex_block1_def ex_block2_def)
qed

lemma ex_mine_block2: "mine ex_heap2 1 ex_block2 = Some (Inr ex_block2)"
proof -
  have "compute_hash ex_heap2 ex_block2 = digest_b2"
    by (rule digest_block_2) (simp_all add: ex_cells ex_block2_def)
  moreover have "ex_block2\<lparr>hash := digest_b2\<rparr> = ex_block2"
    by (simp add: ex_block2_def)
  moreover have "startswith digest_b2 [CHR ''0'']"
    by (simp add: startswith_def digest_b2_def)
  ultimately have "mine_loop ex_heap2 [CHR ''0''] ex_block2 = Some ex_block2"
    by (subst mine_loop_unfold) simp
  then show ?thesis by (simp add: mine_def)
qed

lemma ex_add_block2: "add_block ex_heap2 ex_chain2 ts2 1 = Some (Inr (ex_chain3, ex_block2))"
proof -
  have "tip ex_chain2 = Inr ex_block1"
    by (simp add: tip_def ex_chain2_def)
  moreover have "difficulty ex_chain2 = 1"
    by (simp add: ex_chain2_def)
  moreover have "ex_chain2\<lparr>chain_list := chain_list ex_chain2 @ [ex_block2]\<rparr> = ex_chain3"
    by (simp add: ex_chain2_def ex_chain3_def)
  ultimately show ?thesis
    using ex_mine_block2 by (simp add: add_block_def ex_candidate2)
qed

lemma ex_built3: "built ex_heap2 ex_chain3"
proof -
  have "1 < next_ref ex_heap2" by (simp add: ex_heap2_def)
  with ex_built show ?thesis using ex_add_block2 by (rule built.append)
qed

lemma ex_tamper:
  "tamper ex_heap2 ex_chain2 1 ''amount'' (JStr ''999'') = Modified ex_heap3"
  by (simp add: tamper_def ex_chain2_def ex_block1_def ex_heap2_def ex_heap3_def payload1_def
        payload1_tampered_def fun_upd_twist)

lemma ex_tamper_same:
  "tamper ex_heap2 ex_chain2 1 ''from'' (JStr ''A'') = Modified ex_heap2"
  by (simp add: tamper_def ex_chain2_def ex_block1_def ex_heap2_def payload1_def)

lemma ex_reachable: "reachable ex_heap3 ex_chain2"
proof -
  have "reachable ex_heap1 ex_chain1" using ex_construct by (rule reachable.r_construct)
  then have "reachable ex_heap2 ex_chain1" using ex_alloc by (rule reachable.r_new_payload)
  moreover have "1 < next_ref ex_heap2" by (simp add: ex_heap2_def)
  ultimately have "reachable ex_heap2 ex_chain2" using ex_add_block by (rule reachable.r_append)
  then show ?thesis using ex_tamper by (rule reachable.r_tamper)
qed

lemma ex_relinked_report: "is_valid_report ex_heap1 ex_relinked = Some (0, Hash_mismatch)"
proof -
  have "compute_hash ex_heap1 (ex_genesis\<lparr>previous_hash := []\<rparr>) = digest_p"
    by (rule digest_genesis_relinked) (simp_all add: ex_cells ex_genesis_def)
  moreover have "hash (ex_genesis\<lparr>previous_hash := []\<rparr>) = digest_g1"
    by (simp add: ex_genesis_def)
  ultimately have "block_check ex_heap1 ex_relinked 0 (ex_genesis\<lparr>previous_hash := []\<rparr>)
      = Some Hash_mismatch"
    using digests_differ(6) by (simp add: block_check_def)
  then show ?thesis
    by (simp add: is_valid_report_Some ex_relinked_def)
qed

lemma ex_forged_report: "is_valid_report ex_heap1 ex_forged = Some (0, Genesis_previous_hash)"
proof -
  let ?g = "ex_genesis\<lparr>previous_hash := [], hash := digest_p\<rparr>"
  have "compute_hash ex_heap1 ?g = digest_p"
    by (rule digest_genesis_relinked) (simp_all add: ex_cells ex_genesis_def)
  moreover have "hash ?g = digest_p" "previous_hash ?g = []"
    by (simp_all add: ex_genesis_def)
  ultimately have "block_check ex_heap1 ex_forged 0 ?g = Some Genesis_previous_hash"
    by (simp add: block_check_def ex_forged_def)
  then show ?thesis
    by (simp add: is_valid_report_Some ex_forged_def)
qed

text \<open>
  Why the payload object must not be shared: \<^verbatim>\<open>add_block\<close> called twice with the same
  dict makes blocks 1 and 2 hold one object. Tampering block 2 then changes the payload of
  block 1 as well, and \<^verbatim>\<open>is_valid\<close> stops at position 1.
\<close>

lemma shared_payload_reported_at_first_holder:
  "built ex_heap2 ex_chain3
   \<and> data (chain_list ex_chain3 ! 1) = data (chain_list ex_chain3 ! 2)
   \<and> tamper ex_heap2 ex_chain3 2 ''amount'' (JStr ''999'') = Modified ex_heap3
   \<and> is_valid_report ex_heap3 ex_chain3 = Some (1, Hash_mismatch)"
proof -
  have t: "tamper ex_heap2 ex_chain3 2 ''amount'' (JStr ''999'') = Modified ex_heap3"
    by (simp add: tamper_def ex_chain3_def ex_block2_def ex_heap2_def ex_heap3_def payload1_def
        payload1_tampered_def fun_upd_twist)
  have "block_check ex_heap3 ex_chain3 0 ex_genesis = None"
    using ex_hashes(5) digests_differ(2) by (simp add: block_check_def ex_chain3_def ex_genesis_def)
  moreover have "block_check ex_heap3 ex_chain3 1 ex_block1 = Some Hash_mismatch"
    using ex_hashes(7) digests_differ(5) by (simp add: block_check_def ex_block1_def)
  ultimately have "is_valid_report ex_heap3 ex_chain3 = Some (1, Hash_mismatch)"
    by (simp add: is_valid_report_Some ex_chain3_def)
  with ex_built3 t show ?thesis
    by (simp add: ex_chain3_def ex_block1_def ex_block2_def)
qed

section \<open>The claims\<close>




text \<open>
  C2. When \<^verbatim>\<open>mine(d)\<close> returns, \<open>d\<close> is not negative, the stored hash is the SHA-256 hex
  digest of the header with the final nonce, and its first \<open>d\<close> characters are zeros.
  Run statement by statement, the loop reaches its \<^verbatim>\<open>return\<close> with that block, and
  whenever it is about to evaluate its stopping test, the stored hash is the digest just
  computed from the nonce under test.
\<close>

theorem mine_meets_target:
  "(mine h d self = Some (Inr b) \<longrightarrow>
      0 \<le> d \<and> hash b = sha256_hex (header_string h b)
      \<and> take (nat d) (hash b) = replicate (nat d) CHR ''0''
      \<and> (\<exists>k. (mine_step h (replicate (nat d) CHR ''0'') ^^ k) (At_hash, self) = (Returned, b)))
   \<and> ((mine_step h t ^^ n) (At_hash, self) = (At_test, b') \<longrightarrow>
      hash b' = sha256_hex (header_string h b'))"
proof (intro conjI impI)
  assume m: "mine h d self = Some (Inr b)"
  show "0 \<le> d" by (rule mine_result(1) [OF m])
  show "hash b = sha256_hex (header_string h b)"
    using mine_fields(1) [OF m] by (simp add: compute_hash_def)
  show "take (nat d) (hash b) = replicate (nat d) CHR ''0''"
    using mine_fields(2) [OF m] by (simp add: startswith_def)
  show "\<exists>k. (mine_step h (replicate (nat d) CHR ''0'') ^^ k) (At_hash, self) = (Returned, b)"
    by (rule mine_loop_run [OF mine_result(2) [OF m]])
next
  assume "(mine_step h t ^^ n) (At_hash, self) = (At_test, b')"
  then show "hash b' = sha256_hex (header_string h b')"
    using mine_step_tested by (simp add: compute_hash_def)
qed

theorem mine_meets_target_witness:
  "mine ex_heap1 1 ex_fresh = Some (Inr ex_genesis)
   \<and> hash ex_genesis = sha256_hex (header_string ex_heap1 ex_genesis)
   \<and> take (nat 1) (hash ex_genesis) = replicate (nat 1) CHR ''0''
   \<and> (mine_step ex_heap1 [CHR ''0''] ^^ 1) (At_hash, ex_fresh) = (At_test, ex_fresh)
   \<and> hash ex_fresh = sha256_hex (header_string ex_heap1 ex_fresh)"
proof -
  note t = mine_meets_target [where h = ex_heap1 and d = 1 and self = ex_fresh and b = ex_genesis
      and t = "[CHR ''0'']" and n = 1 and b' = ex_fresh]
  from t ex_mine have "hash ex_genesis = sha256_hex (header_string ex_heap1 ex_genesis)"
    and "take (nat 1) (hash ex_genesis) = replicate (nat 1) CHR ''0''"
    by blast+
  moreover from t ex_run_1 have "hash ex_fresh = sha256_hex (header_string ex_heap1 ex_fresh)"
    by blast
  ultimately show ?thesis using ex_mine ex_run_1 by blast
qed

text \<open>
  C3. A chain made by construction, payload objects the caller creates and
  \<^verbatim>\<open>add_block\<close>, with no tampering, passes \<^verbatim>\<open>is_valid\<close>: nothing is reported and the
  result is \<open>True\<close>. Its difficulty is not negative; the range 0 to 6 is a part of that.
\<close>

theorem built_chain_is_valid:
  assumes "built h bc"
  shows "is_valid_report h bc = None
    \<and> fst (is_valid \<lparr>store = h, ledger = bc, console = out\<rparr>) \<and> 0 \<le> difficulty bc"
  using built_chain_ok [OF assms] by (simp add: chain_ok_def is_valid_fst)

theorem built_chain_is_valid_witness:
  "built ex_heap2 ex_chain2 \<and> length (chain_list ex_chain2) = 2 \<and> difficulty ex_chain2 = 1
   \<and> is_valid_report ex_heap2 ex_chain2 = None
   \<and> fst (is_valid \<lparr>store = ex_heap2, ledger = ex_chain2, console = []\<rparr>)"
  using built_chain_is_valid [OF ex_built, of "[]"] ex_built by (simp add: ex_chain2_def)






text \<open>
  C6, as the code has it. A second \<^verbatim>\<open>mine(d)\<close> right after the first has returned
  changes nothing: the digest of the current nonce meets the target, so the loop returns
  on its first test.
\<close>

theorem mine_idempotent:
  assumes "mine h d self = Some (Inr b)"
  shows "mine h d b = Some (Inr b)"
  using mine_loop_fixed [OF mine_result(2) [OF assms]] mine_result(1) [OF assms]
  by (simp add: mine_def)

theorem mine_idempotent_witness:
  "mine ex_heap1 1 ex_fresh = Some (Inr ex_genesis)
   \<and> mine ex_heap1 1 ex_genesis = Some (Inr ex_genesis) \<and> nonce ex_genesis = 1"
  using mine_idempotent [OF ex_mine] ex_mine by (simp add: ex_genesis_def)

text \<open>
  C6 as stated fails: no block and no difficulty exist for which a second \<^verbatim>\<open>mine(d)\<close>,
  right after a first one has returned, ends with another nonce.
\<close>

theorem mine_twice_same_nonce:
  "\<not> (\<exists>h d self b b2. mine h d self = Some (Inr b) \<and> mine h d b = Some (Inr b2)
         \<and> nonce b2 \<noteq> nonce b)"
proof
  assume "\<exists>h d self b b2. mine h d self = Some (Inr b) \<and> mine h d b = Some (Inr b2)
         \<and> nonce b2 \<noteq> nonce b"
  then obtain h d self b b2 where
    m: "mine h d self = Some (Inr b)" "mine h d b = Some (Inr b2)" and n: "nonce b2 \<noteq> nonce b"
    by blast
  from mine_loop_fixed [OF mine_result(2) [OF m(1)]] mine_result(1) [OF m(1)]
  have "mine h d b = Some (Inr b)" by (simp add: mine_def)
  with m(2) n show False by simp
qed

text \<open>
  C7. With a negative difficulty \<^verbatim>\<open>mine\<close> raises \<^verbatim>\<open>AssertionError\<close> before it computes
  anything, and so does the construction of a chain: no block and no chain result.
\<close>

theorem negative_difficulty_raises:
  assumes "d < 0"
  shows "mine h d self = Some (Inl AssertionError)
    \<and> Blockchain_init h d now = Some (Inl AssertionError)"
  using assms by (simp add: mine_def Blockchain_init_def create_genesis_def split_beta)

theorem negative_difficulty_raises_witness:
  "(- 1 :: int) < 0 \<and> mine ex_heap1 (- 1) ex_fresh = Some (Inl AssertionError)
   \<and> Blockchain_init ex_heap0 (- 1) ts0 = Some (Inl AssertionError)"
  using negative_difficulty_raises [of "- 1" ex_heap1 ex_fresh] 
    negative_difficulty_raises [of "- 1" ex_heap0 ex_fresh ts0] by simp

text \<open>
  C8. \<^verbatim>\<open>is_valid\<close> leaves the store and the chain as they were (it only prints), and a
  second call right after the first returns the same boolean and reports the same.
\<close>

theorem is_valid_changes_nothing:
  "store (snd (is_valid w)) = store w \<and> ledger (snd (is_valid w)) = ledger w
   \<and> fst (is_valid (snd (is_valid w))) = fst (is_valid w)
   \<and> is_valid_report (store (snd (is_valid w))) (ledger (snd (is_valid w)))
       = is_valid_report (store w) (ledger w)"
  by (simp add: is_valid_def split: option.splits)

theorem is_valid_changes_nothing_witness:
  "is_valid \<lparr>store = ex_heap1, ledger = ex_relinked, console = []\<rparr>
     = (False, \<lparr>store = ex_heap1, ledger = ex_relinked, console = [(0, Hash_mismatch)]\<rparr>)
   \<and> fst (is_valid \<lparr>store = ex_heap1, ledger = ex_relinked, console = [(0, Hash_mismatch)]\<rparr>)
       = False"
  using is_valid_changes_nothing [of "\<lparr>store = ex_heap1, ledger = ex_relinked, console = []\<rparr>"]
    ex_relinked_report
  by (simp add: is_valid_def)

text \<open>
  C9, as the code has it. Take a block fresh from its constructor and run \<^verbatim>\<open>mine\<close> on
  it for any number of statements. The stored hash is the digest of the current header
  right after construction, whenever the loop is at its stopping test, at the increment
  and after the return. Back at the top of the loop after an increment, the stored hash
  is the digest of the header with the previous nonce. So the constructor alone makes the
  hash check of \<^verbatim>\<open>is_valid\<close> pass for a block that was never mined, and a returned
  \<^verbatim>\<open>mine\<close> keeps it so.
\<close>

theorem hash_follows_header:
  "hash (Block_init h idx now d prev) = sha256_hex (header_string h (Block_init h idx now d prev))
   \<and> nonce (Block_init h idx now d prev) = 0
   \<and> block_check h bc i (Block_init h idx now d prev) \<noteq> Some Hash_mismatch
   \<and> ((mine_step h t ^^ n) (At_hash, Block_init h idx now d prev) = (p, b) \<longrightarrow>
        (p \<noteq> At_hash \<or> n = 0 \<longrightarrow> hash b = sha256_hex (header_string h b))
        \<and> (p = At_hash \<and> n \<noteq> 0 \<longrightarrow>
             hash b = sha256_hex (header_string h (b\<lparr>nonce := nonce b - 1\<rparr>))))
   \<and> (mine h dif (Block_init h idx now d prev) = Some (Inr b') \<longrightarrow>
        hash b' = sha256_hex (header_string h b')
        \<and> block_check h bc i b' \<noteq> Some Hash_mismatch)"
proof -
  let ?b0 = "Block_init h idx now d prev"
  have c: "hash ?b0 = compute_hash h ?b0" by (rule Block_init_hash)
  have 1: "hash ?b0 = sha256_hex (header_string h ?b0)"
    using c by (simp add: compute_hash_def)
  have 2: "block_check h bc i ?b0 \<noteq> Some Hash_mismatch"
    using c by (simp add: block_check_def)
  have 3: "(p \<noteq> At_hash \<or> n = 0 \<longrightarrow> hash b = sha256_hex (header_string h b))
        \<and> (p = At_hash \<and> n \<noteq> 0 \<longrightarrow>
             hash b = sha256_hex (header_string h (b\<lparr>nonce := nonce b - 1\<rparr>)))"
    if "(mine_step h t ^^ n) (At_hash, ?b0) = (p, b)"
    using mine_step_fresh [OF c that] by (auto simp: compute_hash_def split: if_splits)
  have 4: "hash b' = sha256_hex (header_string h b') \<and> block_check h bc i b' \<noteq> Some Hash_mismatch"
    if "mine h dif ?b0 = Some (Inr b')"
    using mine_fields(1) [OF that] by (simp add: compute_hash_def block_check_def)
  from 1 2 3 4 show ?thesis by simp
qed

theorem hash_follows_header_witness:
  "(mine_step ex_heap1 [CHR ''0''] ^^ 3)
      (At_hash, Block_init ex_heap1 0 ts0 0 (replicate 64 CHR ''0'')) = (At_hash, ex_stale)
   \<and> hash ex_stale = sha256_hex (header_string ex_heap1 (ex_stale\<lparr>nonce := nonce ex_stale - 1\<rparr>))
   \<and> mine ex_heap1 1 (Block_init ex_heap1 0 ts0 0 (replicate 64 CHR ''0'')) = Some (Inr ex_genesis)
   \<and> hash ex_genesis = sha256_hex (header_string ex_heap1 ex_genesis)"
proof -
  note t = hash_follows_header [where h = ex_heap1 and idx = 0 and now = ts0 and d = 0
      and prev = "replicate 64 CHR ''0''" and t = "[CHR ''0'']" and n = 3 and p = At_hash
      and b = ex_stale and dif = 1 and b' = ex_genesis and bc = ex_chain1 and i = 0]
  have r: "(mine_step ex_heap1 [CHR ''0''] ^^ 3)
      (At_hash, Block_init ex_heap1 0 ts0 0 (replicate 64 CHR ''0'')) = (At_hash, ex_stale)"
    using ex_run_3 by (simp add: ex_fresh_def)
  have m: "mine ex_heap1 1 (Block_init ex_heap1 0 ts0 0 (replicate 64 CHR ''0'')) = Some (Inr ex_genesis)"
    using ex_mine by (simp add: ex_fresh_def)
  from t r have "hash ex_stale
      = sha256_hex (header_string ex_heap1 (ex_stale\<lparr>nonce := nonce ex_stale - 1\<rparr>))"
    by simp
  moreover from t m have "hash ex_genesis = sha256_hex (header_string ex_heap1 ex_genesis)"
    by blast
  ultimately show ?thesis using r m by blast
qed

text \<open>
  C9 as stated fails inside the loop: mining the genesis block at difficulty 1, the
  first digest misses the target; after the increment of the nonce and before the next
  assignment, the stored hash is not the digest of the current header.
\<close>

theorem hash_stale_after_increment:
  "(mine_step ex_heap1 [CHR ''0''] ^^ 3)
      (At_hash, Block_init ex_heap1 0 ts0 0 (replicate 64 CHR ''0'')) = (At_hash, ex_stale)
   \<and> hash ex_stale \<noteq> sha256_hex (header_string ex_heap1 ex_stale)
   \<and> (mine_step ex_heap1 [CHR ''0''] ^^ 5)
      (At_hash, Block_init ex_heap1 0 ts0 0 (replicate 64 CHR ''0'')) = (Returned, ex_genesis)"
proof -
  have r: "(mine_step ex_heap1 [CHR ''0''] ^^ 3)
      (At_hash, Block_init ex_heap1 0 ts0 0 (replicate 64 CHR ''0'')) = (At_hash, ex_stale)"
    using ex_run_3 by (simp add: ex_fresh_def)
  have "(mine_step ex_heap1 [CHR ''0''] ^^ (2 + 3)) (At_hash, ex_fresh) = (Returned, ex_genesis)"
    unfolding funpow_add o_apply ex_run_3
    by (simp add: numeral_2_eq_2 ex_hashes digests_differ ex_second_iteration)
      (simp add: ex_genesis_def digests_differ)
  then have 5: "(mine_step ex_heap1 [CHR ''0''] ^^ 5)
      (At_hash, Block_init ex_heap1 0 ts0 0 (replicate 64 CHR ''0'')) = (Returned, ex_genesis)"
    by (simp add: ex_fresh_def)
  have "hash ex_stale = digest_g0" by (simp add: ex_stale_def)
  with ex_hashes(2) digests_differ(4)
  have "hash ex_stale \<noteq> sha256_hex (header_string ex_heap1 ex_stale)"
    by (simp add: compute_hash_def)
  with r 5 show ?thesis by blast
qed

text \<open>
  C10. When \<^verbatim>\<open>mine(d)\<close> returns, the final nonce is not below the initial one, the block
  is the initial one but for nonce and hash, and no nonce from the initial one up to the
  final one gives a digest that starts with \<open>d\<close> zeros.
\<close>

theorem mine_first_nonce:
  assumes "mine h d self = Some (Inr b)"
  shows "nonce self \<le> nonce b
    \<and> header_string h b = header_string h (self\<lparr>nonce := nonce b\<rparr>)
    \<and> (\<forall>m. nonce self \<le> m \<and> m < nonce b \<longrightarrow>
          \<not> startswith (sha256_hex (header_string h (self\<lparr>nonce := m\<rparr>)))
               (replicate (nat d) CHR ''0''))"
proof -
  note r = mine_loop_result [OF mine_result(2) [OF assms]]
  from r have eq: "b = self\<lparr>nonce := nonce b,
      hash := compute_hash h (self\<lparr>nonce := nonce b\<rparr>)\<rparr>"
    by blast
  have "header_string h b = header_string h (self\<lparr>nonce := nonce b\<rparr>)"
    by (subst eq) (simp add: header_string_def)
  with r show ?thesis by (simp add: compute_hash_def)
qed

theorem mine_first_nonce_witness:
  "mine ex_heap1 1 ex_fresh = Some (Inr ex_genesis)
   \<and> nonce ex_fresh = 0 \<and> nonce ex_genesis = 1
   \<and> \<not> startswith (sha256_hex (header_string ex_heap1 (ex_fresh\<lparr>nonce := 0\<rparr>)))
         (replicate (nat 1) CHR ''0'')"
proof -
  have n: "nonce ex_fresh = 0" "nonce ex_genesis = 1"
    by (simp_all add: ex_fresh_hash ex_genesis_def)
  with mine_first_nonce [OF ex_mine] show ?thesis
    using ex_mine by simp
qed

end
